theory Spec2Isabelle
  imports Main
begin

section \<open>The LIFO page replacement simulator (script.js)\<close>

subsection \<open>Values and arrays of the script\<close>

text \<open>
  The values that the engine stores in its arrays and records: \<open>null\<close> (an empty frame,
  or "no page replaced"), \<open>undefined\<close> (what \<open>pop\<close> returns on an empty array) and the
  page numbers. The reference string holds the results of \<open>parseInt\<close> on strings of
  decimal digits, so a page is a natural number.
\<close>

datatype jsval = JNull | JUndefined | JNum nat

text \<open>
  \<open>Array.prototype.indexOf\<close>: the first index whose element is strictly equal to the
  argument, \<open>-1\<close> when there is none. On \<open>null\<close>, \<open>undefined\<close> and the page numbers
  strict equality is equality of the values.
\<close>

primrec indexOf :: "'a list \<Rightarrow> 'a \<Rightarrow> int" where
  "indexOf [] x = -1"
| "indexOf (y # ys) x =
     (if y = x then 0
      else (let r = indexOf ys x in if r = -1 then -1 else r + 1))"

text \<open>
  \<open>Array.prototype.pop\<close>: removes and returns the last element; on an empty array it
  returns \<open>undefined\<close> and leaves the array empty.
\<close>

definition pop :: "jsval list \<Rightarrow> jsval \<times> jsval list" where
  "pop xs = (if xs = [] then (JUndefined, []) else (last xs, butlast xs))"

definition push :: "jsval list \<Rightarrow> jsval \<Rightarrow> jsval list" where
  "push xs v = xs @ [v]"

text \<open>
  The assignment \<open>frames[i] = v\<close>, for an index \<open>i\<close> that \<open>indexOf\<close> on the same
  array returned: \<open>i\<close> is an index of the array, or it is \<open>-1\<close>. In the second case the
  script stores a property named "-1" on the array object: no element changes, the length
  stays, and neither \<open>indexOf\<close> nor the spread \<open>[...frames]\<close> sees the property.
\<close>

definition assign :: "jsval list \<Rightarrow> int \<Rightarrow> jsval \<Rightarrow> jsval list" where
  "assign xs i v = (if 0 \<le> i \<and> i < int (length xs) then xs[nat i := v] else xs)"

text \<open>
  \<open>new Array(n).fill(v)\<close> for an integer \<open>n\<close>: an array of \<open>n\<close> elements \<open>v\<close>; a
  negative length makes \<open>new Array\<close> throw a \<open>RangeError\<close>. The upper limit of the length
  of an array, like the size of the memory, is not modelled: arrays are lists of any
  length.
\<close>

datatype jsError = RangeError

definition newArrayFill :: "int \<Rightarrow> jsval \<Rightarrow> jsError + jsval list" where
  "newArrayFill n v = (if n < 0 then Inl RangeError else Inr (replicate (nat n) v))"

subsection \<open>The step records and the state object\<close>

record stepData =
  step :: nat
  page :: nat
  frames :: "jsval list"
  stack :: "jsval list"
  isHit :: bool
  isFault :: bool
  replacedPage :: jsval
  replacedIndex :: int
  newPageIndex :: int

text \<open>
  The global \<open>state\<close> object. Its field \<open>frames\<close> is the number of frames (the record
  field of the same name in \<open>stepData\<close> is the snapshot of the frame array), an integer
  of the script: it starts at 3, and \<open>loadAndValidate\<close> stores the result of \<open>parseInt\<close>
  there. \<open>playInterval\<close> is \<open>null\<close> or a timer handle.
\<close>

record state =
  frames :: int
  referenceString :: "nat list"
  stateHistory :: "stepData list"
  currentStep :: int
  isLoaded :: bool
  isPlaying :: bool
  playInterval :: "nat option"
  speed :: nat
  totalHits :: nat
  totalFaults :: nat

definition initial_state :: state where
  "initial_state =
     \<lparr>frames = 3, referenceString = [], stateHistory = [], currentStep = -1,
      isLoaded = False, isPlaying = False, playInterval = None, speed = 400,
      totalHits = 0, totalFaults = 0\<rparr>"

subsection \<open>The engine: buildStateHistory\<close>

text \<open>
  One iteration of the \<open>for\<close> loop of \<open>buildStateHistory\<close>, at index \<open>i\<close> with
  \<open>p = state.referenceString[i]\<close>. The local arrays \<open>frames\<close> and \<open>stack\<close> are \<open>fs\<close>
  and \<open>st\<close>; the result holds their new contents and the updated state object.
\<close>

definition iteration ::
  "nat \<Rightarrow> nat \<Rightarrow> jsval list \<Rightarrow> jsval list \<Rightarrow> state \<Rightarrow> jsval list \<times> jsval list \<times> state" where
  "iteration i p fs st s =
     (let sd = \<lparr>step = i + 1, page = p, stepData.frames = fs, stack = st,
                isHit = False, isFault = False, replacedPage = JNull,
                replacedIndex = -1, newPageIndex = -1\<rparr>;
          pageIndex = indexOf fs (JNum p)
      in if pageIndex \<noteq> -1 then
           (fs, st, s\<lparr>totalHits := totalHits s + 1,
                      stateHistory := stateHistory s @ [sd\<lparr>isHit := True\<rparr>]\<rparr>)
         else
           (let sd1 = sd\<lparr>isFault := True\<rparr>;
                s1 = s\<lparr>totalFaults := totalFaults s + 1\<rparr>;
                emptyIndex = indexOf fs JNull
            in if emptyIndex \<noteq> -1 then
                 (let fs' = assign fs emptyIndex (JNum p);
                      st' = push st (JNum p);
                      sd2 = sd1\<lparr>newPageIndex := emptyIndex\<rparr>
                  in (fs', st',
                      s1\<lparr>stateHistory := stateHistory s1 @
                            [sd2\<lparr>stepData.frames := fs', stack := st'\<rparr>]\<rparr>))
               else
                 (let (pageToReplace, st0) = pop st;
                      replaceIndex = indexOf fs pageToReplace;
                      sd2 = sd1\<lparr>replacedPage := pageToReplace, replacedIndex := replaceIndex\<rparr>;
                      fs' = assign fs replaceIndex (JNum p);
                      st' = push st0 (JNum p);
                      sd3 = sd2\<lparr>newPageIndex := replaceIndex\<rparr>
                  in (fs', st',
                      s1\<lparr>stateHistory := stateHistory s1 @
                            [sd3\<lparr>stepData.frames := fs', stack := st'\<rparr>]\<rparr>))))"

text \<open>The loop over the reference string, from index \<open>i\<close> on.\<close>

fun loop ::
  "nat \<Rightarrow> nat list \<Rightarrow> jsval list \<Rightarrow> jsval list \<Rightarrow> state \<Rightarrow> jsval list \<times> jsval list \<times> state" where
  "loop i [] fs st s = (fs, st, s)"
| "loop i (p # ps) fs st s =
     (case iteration i p fs st s of (fs', st', s') \<Rightarrow> loop (i + 1) ps fs' st' s')"

text \<open>
  \<open>buildStateHistory\<close>: the error thrown, if any, and the state object after the call.
  The history and the two counters are reset before the frame array is created, so they
  stay reset when the creation of the array throws.
\<close>

definition buildStateHistory :: "state \<Rightarrow> jsError option \<times> state" where
  "buildStateHistory s =
     (let s0 = s\<lparr>stateHistory := [], totalHits := 0, totalFaults := 0\<rparr>
      in case newArrayFill (state.frames s0) JNull of
           Inl e \<Rightarrow> (Some e, s0)
         | Inr fs \<Rightarrow> (None, snd (snd (loop 0 (referenceString s0) fs [] s0))))"

subsection \<open>The engine after a prefix of the reference string\<close>

text \<open>
  The same loop on a frame array of \<open>state.frames\<close> empty slots, stopped after its first
  \<open>k\<close> iterations: the local arrays \<open>frames\<close> and \<open>stack\<close> and the state object as they
  stand when iteration \<open>k\<close> begins. When the frame count is not negative, \<open>framesAt s k\<close>
  and \<open>stackAt s k\<close> are therefore the contents of the two arrays before step \<open>k + 1\<close>
  of the simulation, and after step \<open>k\<close>.
\<close>

definition prefixRun :: "state \<Rightarrow> nat \<Rightarrow> jsval list \<times> jsval list \<times> state" where
  "prefixRun s k =
     (let s0 = s\<lparr>stateHistory := [], totalHits := 0, totalFaults := 0\<rparr>
      in loop 0 (take k (referenceString s0)) (replicate (nat (state.frames s0)) JNull) [] s0)"

definition framesAt :: "state \<Rightarrow> nat \<Rightarrow> jsval list" where
  "framesAt s k = fst (prefixRun s k)"

definition stackAt :: "state \<Rightarrow> nat \<Rightarrow> jsval list" where
  "stackAt s k = fst (snd (prefixRun s k))"

text \<open>The history that \<open>buildStateHistory\<close> leaves in the state object.\<close>

definition history :: "state \<Rightarrow> stepData list" where
  "history s = stateHistory (snd (buildStateHistory s))"

text \<open>
  The relation between the frame array and the replacement stack that the engine keeps
  when there is at least one frame: the array has \<open>n\<close> slots, no page is in two slots or
  twice in the stack, and the stack holds exactly the pages of the non-empty slots.
\<close>

definition consistent :: "nat \<Rightarrow> jsval list \<Rightarrow> jsval list \<Rightarrow> bool" where
  "consistent n fs st \<longleftrightarrow>
     length fs = n \<and> distinct st \<and> set st = set fs - {JNull} \<and>
     distinct (filter (\<lambda>v. v \<noteq> JNull) fs)"

subsection \<open>The statistics panel: renderStats\<close>






subsection \<open>The input collector: loadAndValidate\<close>

text \<open>
  The characters of the text of the reference string are the code units below 256.
  Among them the white space of \<open>trim\<close> and of the class \<open>\s\<close> is tab, line feed,
  vertical tab, form feed, carriage return, space and the no-break space.
\<close>

definition isWhiteSpace :: "char \<Rightarrow> bool" where
  "isWhiteSpace c \<longleftrightarrow>
     c \<in> set [CHR 0x09, CHR 0x0A, CHR 0x0B, CHR 0x0C, CHR 0x0D, CHR 0x20, CHR 0xA0]"

definition trim :: "string \<Rightarrow> string" where
  "trim t = rev (dropWhile isWhiteSpace (rev (dropWhile isWhiteSpace t)))"

definition isSeparator :: "char \<Rightarrow> bool" where
  "isSeparator c \<longleftrightarrow> isWhiteSpace c \<or> c = CHR '',''"

text \<open>
  \<open>split(/[\s,]+/)\<close>: the pieces between the maximal runs of separators, with an empty
  piece before a run that starts the text and after a run that ends it.
\<close>

function splitSeparators :: "string \<Rightarrow> string list" where
  "splitSeparators t =
     (let piece = takeWhile (\<lambda>c. \<not> isSeparator c) t;
          rest = dropWhile (\<lambda>c. \<not> isSeparator c) t
      in if rest = [] then [piece] else piece # splitSeparators (dropWhile isSeparator rest))"
  by pat_completeness auto
termination
proof (relation "measure length")
  show "wf (measure length)" by simp
next
  fix t :: string and piece rest :: string
  assume rest: "rest = dropWhile (\<lambda>c. \<not> isSeparator c) t" and ne: "rest \<noteq> []"
  from ne obtain c cs where cs: "rest = c # cs" by (cases rest) auto
  from ne have "\<not> \<not> isSeparator (hd rest)"
    unfolding rest by (rule hd_dropWhile)
  with cs have "isSeparator c" by simp
  with cs have "dropWhile isSeparator rest = dropWhile isSeparator cs" by simp
  then have "length (dropWhile isSeparator rest) \<le> length cs"
    by (simp add: length_dropWhile_le)
  moreover have "length rest \<le> length t"
    unfolding rest by (rule length_dropWhile_le)
  ultimately show "(dropWhile isSeparator rest, t) \<in> measure length"
    using cs by simp
qed

text \<open>The test \<open>/^\d+$/\<close>: one or more characters, all decimal digits.\<close>

definition isDigit :: "char \<Rightarrow> bool" where
  "isDigit c \<longleftrightarrow> 48 \<le> (of_char c :: nat) \<and> (of_char c :: nat) \<le> 57"

definition allDigits :: "string \<Rightarrow> bool" where
  "allDigits t \<longleftrightarrow> t \<noteq> [] \<and> list_all isDigit t"

text \<open>
  \<open>parseInt\<close> on a string of decimal digits, as the natural number that the digits
  denote. The script's numbers are doubles: they are this number below \<open>2 ^ 53\<close>, and
  above it a rounded value that this model does not follow, so that it covers reference
  strings whose pages are below \<open>2 ^ 53\<close>.
\<close>

definition parseDigits :: "string \<Rightarrow> nat" where
  "parseDigits t = foldl (\<lambda>a c. 10 * a + (of_char c - 48)) 0 t"

text \<open>
  The alerts of \<open>loadAndValidate\<close>: three of type 'error' (the last one quotes the bad
  value) and the one of type 'success', with the number of pages and of frames.
\<close>

datatype alert =
  InvalidFrames | EmptyReferenceString | InvalidValue string | LoadedSuccessfully nat int

text \<open>
  \<open>loadAndValidate\<close>, up to the call of the engine. \<open>framesValue\<close> is the result of
  \<open>parseInt(elements.framesInput.value)\<close>, with \<open>None\<close> for \<open>NaN\<close>, and \<open>refText\<close> is
  \<open>elements.refStringInput.value\<close>. The result is the alert shown (\<open>Inr\<close>) and the state
  object: an error alert returns at once, before anything is stored; otherwise the
  validated values are stored and the engine runs. The function catches nothing, so an
  error thrown by the engine would leave it uncaught (\<open>Inl\<close>), before the alert of
  success. The rendering calls and the enabling of the buttons that follow do not touch
  the state object.
\<close>

definition loadAndValidate ::
  "int option \<Rightarrow> string \<Rightarrow> state \<Rightarrow> (jsError + alert) \<times> state" where
  "loadAndValidate framesValue refText s =
     (case framesValue of
        None \<Rightarrow> (Inr InvalidFrames, s)
      | Some v \<Rightarrow>
          if v < 1 \<or> v > 10 then (Inr InvalidFrames, s)
          else
            (let refString = trim refText
             in if refString = [] then (Inr EmptyReferenceString, s)
                else
                  (let pages = filter (\<lambda>t. t \<noteq> []) (map trim (splitSeparators refString))
                   in case find (\<lambda>t. \<not> allDigits t) pages of
                        Some t \<Rightarrow> (Inr (InvalidValue t), s)
                      | None \<Rightarrow>
                          (let numericPages = map parseDigits pages;
                               s1 = s\<lparr>state.frames := v,
                                      referenceString := numericPages,
                                      isLoaded := True\<rparr>
                           in case buildStateHistory s1 of
                                (Some e, s2) \<Rightarrow> (Inl e, s2)
                              | (None, s2) \<Rightarrow>
                                  (Inr (LoadedSuccessfully (length numericPages) v), s2)))))"

text \<open>
  The example of \<open>loadExampleString\<close>: the reference string 7 0 1 2 0 3 0 4 with 3
  frames.
\<close>

definition example_state :: state where
  "example_state =
     initial_state\<lparr>state.frames := 3, referenceString := [7, 0, 1, 2, 0, 3, 0, 4]\<rparr>"

section \<open>Properties of the engine\<close>

subsection \<open>Array operations\<close>

lemma indexOf_ge: "- 1 \<le> indexOf xs x"
  by (induction xs) (auto simp: Let_def)

lemma indexOf_less: "indexOf xs x < int (length xs)"
  by (induction xs) (auto simp: Let_def)

lemma indexOf_none: "indexOf xs x = - 1 \<longleftrightarrow> x \<notin> set xs"
proof (induction xs)
  case Nil
  show ?case by simp
next
  case (Cons y ys)
  have "- 1 \<le> indexOf ys x" by (rule indexOf_ge)
  with Cons show ?case by (auto simp: Let_def)
qed

lemma indexOf_nth: "x \<in> set xs \<Longrightarrow> xs ! nat (indexOf xs x) = x"
proof (induction xs)
  case Nil
  then show ?case by simp
next
  case (Cons y ys)
  show ?case
  proof (cases "y = x")
    case True
    then show ?thesis by simp
  next
    case False
    with Cons.prems have mem: "x \<in> set ys" by simp
    then have ne: "indexOf ys x \<noteq> - 1" by (simp add: indexOf_none)
    with indexOf_ge [of ys x] have "0 \<le> indexOf ys x" by arith
    then have "nat (indexOf ys x + 1) = Suc (nat (indexOf ys x))" by arith
    with False ne Cons.IH [OF mem] show ?thesis by (simp add: Let_def)
  qed
qed

lemma indexOf_first: "j < nat (indexOf xs x) \<Longrightarrow> xs ! j \<noteq> x"
proof (induction xs arbitrary: j)
  case Nil
  then show ?case by simp
next
  case (Cons y ys)
  show ?case
  proof (cases "y = x")
    case True
    with Cons.prems show ?thesis by simp
  next
    case False
    show ?thesis
    proof (cases j)
      case 0
      with False show ?thesis by simp
    next
      case (Suc k)
      from Cons.prems False have "j < nat (indexOf ys x + 1)"
        by (simp add: Let_def split: if_splits)
      with Suc have "k < nat (indexOf ys x)" by arith
      from Cons.IH [OF this] Suc show ?thesis by simp
    qed
  qed
qed

lemma indexOf_found:
  assumes "x \<in> set xs"
  shows "0 \<le> indexOf xs x" and "nat (indexOf xs x) < length xs"
proof -
  from assms have "indexOf xs x \<noteq> - 1" by (simp add: indexOf_none)
  with indexOf_ge [of xs x] show "0 \<le> indexOf xs x" by arith
  with indexOf_less [of xs x] show "nat (indexOf xs x) < length xs" by arith
qed

subsection \<open>The three branches of an iteration\<close>

text \<open>
  What one iteration does when the page is in a frame, when it is not and a slot is
  empty, and when it is not and no slot is empty.
\<close>

lemma iteration_hit:
  assumes "JNum p \<in> set fs"
  shows "iteration i p fs st s =
    (fs, st, s\<lparr>totalHits := totalHits s + 1,
               stateHistory := stateHistory s @
                 [\<lparr>step = i + 1, page = p, stepData.frames = fs, stack = st,
                   isHit = True, isFault = False, replacedPage = JNull,
                   replacedIndex = - 1, newPageIndex = - 1\<rparr>]\<rparr>)"
  using assms by (simp add: iteration_def indexOf_none)

lemma iteration_empty:
  assumes "JNum p \<notin> set fs" and "JNull \<in> set fs"
  shows "iteration i p fs st s =
    (fs[nat (indexOf fs JNull) := JNum p], st @ [JNum p],
     s\<lparr>totalFaults := totalFaults s + 1,
       stateHistory := stateHistory s @
         [\<lparr>step = i + 1, page = p,
           stepData.frames = fs[nat (indexOf fs JNull) := JNum p],
           stack = st @ [JNum p],
           isHit = False, isFault = True, replacedPage = JNull,
           replacedIndex = - 1, newPageIndex = indexOf fs JNull\<rparr>]\<rparr>)"
proof -
  from assms(2) have "indexOf fs JNull \<noteq> - 1" by (simp add: indexOf_none)
  with indexOf_ge [of fs JNull] have "0 \<le> indexOf fs JNull" by arith
  with assms indexOf_less [of fs JNull] show ?thesis
    by (simp add: iteration_def indexOf_none assign_def push_def Let_def)
qed

lemma iteration_full:
  assumes "JNum p \<notin> set fs" and "JNull \<notin> set fs"
  shows "iteration i p fs st s =
    (assign fs (indexOf fs (fst (pop st))) (JNum p), snd (pop st) @ [JNum p],
     s\<lparr>totalFaults := totalFaults s + 1,
       stateHistory := stateHistory s @
         [\<lparr>step = i + 1, page = p,
           stepData.frames = assign fs (indexOf fs (fst (pop st))) (JNum p),
           stack = snd (pop st) @ [JNum p],
           isHit = False, isFault = True, replacedPage = fst (pop st),
           replacedIndex = indexOf fs (fst (pop st)),
           newPageIndex = indexOf fs (fst (pop st))\<rparr>]\<rparr>)"
  using assms
  by (simp add: iteration_def indexOf_none push_def Let_def split: prod.splits)

subsection \<open>The loop and its prefixes\<close>

lemma loop_append:
  "loop i (xs @ ys) fs st s =
     (case loop i xs fs st s of (fs', st', s') \<Rightarrow> loop (i + length xs) ys fs' st' s')"
  by (induction xs arbitrary: i fs st s) (auto split: prod.splits)

lemma iteration_history:
  "\<exists>sd. stateHistory (snd (snd (iteration i p fs st s))) = stateHistory s @ [sd]"
  by (cases "JNum p \<in> set fs"; cases "JNull \<in> set fs")
     (simp_all add: iteration_hit iteration_empty iteration_full)

lemma loop_history:
  "\<exists>h. length h = length ps \<and>
       stateHistory (snd (snd (loop i ps fs st s))) = stateHistory s @ h"
proof (induction ps arbitrary: i fs st s)
  case Nil
  show ?case by simp
next
  case (Cons p ps)
  obtain fs' st' s' where it: "iteration i p fs st s = (fs', st', s')"
    by (cases "iteration i p fs st s") auto
  from iteration_history [of i p fs st s] it
  obtain sd where sd: "stateHistory s' = stateHistory s @ [sd]" by auto
  from Cons.IH [of "i + 1" fs' st' s']
  obtain h where h: "length h = length ps"
    "stateHistory (snd (snd (loop (i + 1) ps fs' st' s'))) = stateHistory s' @ h"
    by auto
  from it sd h show ?case
    by (intro exI [of _ "sd # h"]) simp
qed

lemma prefixRun_0:
  "prefixRun s 0 = (replicate (nat (state.frames s)) JNull, [],
     s\<lparr>stateHistory := [], totalHits := 0, totalFaults := 0\<rparr>)"
  by (simp add: prefixRun_def)

lemma prefixRun_Suc:
  assumes "k < length (referenceString s)"
  shows "prefixRun s (Suc k) =
     (case prefixRun s k of (fs, st, s') \<Rightarrow> iteration k (referenceString s ! k) fs st s')"
proof -
  from assms have "take (Suc k) (referenceString s) =
      take k (referenceString s) @ [referenceString s ! k]"
    by (rule take_Suc_conv_app_nth)
  moreover from assms have "length (take k (referenceString s)) = k" by simp
  ultimately show ?thesis
    by (simp add: prefixRun_def loop_append split: prod.splits)
qed

lemma prefixRun_all:
  assumes "0 \<le> state.frames s"
  shows "buildStateHistory s = (None, snd (snd (prefixRun s (length (referenceString s)))))"
  using assms by (simp add: buildStateHistory_def prefixRun_def newArrayFill_def)

lemma buildStateHistory_throws:
  assumes "state.frames s < 0"
  shows "buildStateHistory s =
     (Some RangeError, s\<lparr>stateHistory := [], totalHits := 0, totalFaults := 0\<rparr>)"
  using assms by (simp add: buildStateHistory_def newArrayFill_def)

lemma prefixRun_history_length:
  "length (stateHistory (snd (snd (prefixRun s k)))) = min k (length (referenceString s))"
proof -
  let ?s0 = "s\<lparr>stateHistory := [], totalHits := 0, totalFaults := 0\<rparr>"
  from loop_history [of "take k (referenceString s)" 0 "replicate (nat (state.frames s)) JNull" "[]" ?s0]
  show ?thesis by (auto simp: prefixRun_def min_def)
qed

lemma prefixRun_history_take:
  assumes nn: "0 \<le> state.frames s" and "k \<le> length (referenceString s)"
  shows "stateHistory (snd (snd (prefixRun s k))) = take k (history s)"
proof -
  let ?s0 = "s\<lparr>stateHistory := [], totalHits := 0, totalFaults := 0\<rparr>"
  let ?r = "referenceString s"
  obtain fs st s' where run: "loop 0 (take k ?r) (replicate (nat (state.frames s)) JNull) [] ?s0 = (fs, st, s')"
    by (cases "loop 0 (take k ?r) (replicate (nat (state.frames s)) JNull) [] ?s0") auto
  have len: "length (stateHistory s') = k"
    using prefixRun_history_length [of s k] run assms(2) by (simp add: prefixRun_def)
  have "?r = take k ?r @ drop k ?r" by simp
  then have "loop 0 ?r (replicate (nat (state.frames s)) JNull) [] ?s0
      = loop (0 + length (take k ?r)) (drop k ?r) fs st s'"
    using loop_append [of 0 "take k ?r" "drop k ?r" "replicate (nat (state.frames s)) JNull" "[]" ?s0] run
    by simp
  moreover from loop_history [of "drop k ?r" "0 + length (take k ?r)" fs st s']
  obtain h where "stateHistory (snd (snd (loop (0 + length (take k ?r)) (drop k ?r) fs st s')))
      = stateHistory s' @ h" by auto
  ultimately have "history s = stateHistory s' @ h"
    using nn by (simp add: history_def buildStateHistory_def newArrayFill_def)
  with len run show ?thesis by (simp add: prefixRun_def)
qed

lemma history_length:
  assumes "0 \<le> state.frames s"
  shows "length (history s) = length (referenceString s)"
  using prefixRun_history_length [of s "length (referenceString s)"]
  by (simp add: history_def prefixRun_all [OF assms])

lemma history_nth:
  assumes nn: "0 \<le> state.frames s" and k: "k < length (referenceString s)"
  shows "history s ! k = last (stateHistory (snd (snd (prefixRun s (Suc k)))))"
proof -
  from k have "Suc k \<le> length (referenceString s)" by simp
  then have "stateHistory (snd (snd (prefixRun s (Suc k)))) = take (Suc k) (history s)"
    by (rule prefixRun_history_take [OF nn])
  moreover from k have "k < length (history s)" by (simp add: history_length [OF nn])
  ultimately show ?thesis
    by (simp add: take_Suc_conv_app_nth)
qed


subsection \<open>The invariant of the frame array and the stack\<close>

text \<open>
  The relation \<open>consistent\<close> holds at the start and every iteration keeps it, as long
  as there is at least one frame. With no frame at all the third branch pushes a page
  that is in no slot, and the relation fails.
\<close>

lemma consistent_init: "consistent n (replicate n JNull) []"
  by (auto simp: consistent_def)

lemma consistent_empty_slot:
  assumes c: "consistent n fs st" and p: "JNum p \<notin> set fs" and e: "JNull \<in> set fs"
  shows "consistent n (fs[nat (indexOf fs JNull) := JNum p]) (st @ [JNum p])"
proof -
  let ?k = "nat (indexOf fs JNull)"
  from e have k: "?k < length fs" and at: "fs ! ?k = JNull"
    by (simp_all add: indexOf_found indexOf_nth)
  define A B where "A = take ?k fs" and "B = drop (Suc ?k) fs"
  from k at have fs: "fs = A @ JNull # B"
    unfolding A_def B_def using id_take_nth_drop [of ?k fs] by simp
  from k have upd: "fs[?k := JNum p] = A @ JNum p # B"
    unfolding A_def B_def by (rule upd_conv_take_nth_drop)
  from c have "length fs = n" "distinct st" "set st = set fs - {JNull}"
    "distinct (filter (\<lambda>v. v \<noteq> JNull) fs)"
    by (simp_all add: consistent_def)
  with p show ?thesis
    unfolding upd consistent_def unfolding fs by auto
qed

lemma consistent_full:
  assumes c: "consistent n fs st" and n: "1 \<le> n"
    and p: "JNum p \<notin> set fs" and e: "JNull \<notin> set fs"
  shows "st \<noteq> []" and "last st \<in> set fs"
    and "consistent n (fs[nat (indexOf fs (last st)) := JNum p]) (butlast st @ [JNum p])"
proof -
  from c have len: "length fs = n" and dst: "distinct st"
    and sets: "set st = set fs - {JNull}"
    and dfs: "distinct (filter (\<lambda>v. v \<noteq> JNull) fs)"
    by (simp_all add: consistent_def)
  from e have "\<forall>x\<in>set fs. x \<noteq> JNull" by auto
  then have "filter (\<lambda>v. v \<noteq> JNull) fs = fs" by (rule filter_True)
  with dfs have dist: "distinct fs" by simp
  from e sets have sets': "set st = set fs" by auto
  from len n have "fs \<noteq> []" by auto
  with sets' show ne: "st \<noteq> []" by auto
  then obtain C v where st: "st = C @ [v]" by (cases st rule: rev_cases) auto
  then have "v \<in> set st" by simp
  with sets' have mem: "v \<in> set fs" by simp
  with st show "last st \<in> set fs" by simp
  let ?k = "nat (indexOf fs v)"
  from mem have k: "?k < length fs" and at: "fs ! ?k = v"
    by (simp_all add: indexOf_found indexOf_nth)
  define A B where "A = take ?k fs" and "B = drop (Suc ?k) fs"
  from k at have fs: "fs = A @ v # B"
    unfolding A_def B_def using id_take_nth_drop [of ?k fs] by simp
  from k have upd: "fs[?k := JNum p] = A @ JNum p # B"
    unfolding A_def B_def by (rule upd_conv_take_nth_drop)
  from dist have d1: "distinct (A @ v # B)" unfolding fs .
  from dst have d2: "distinct (C @ [v])" unfolding st .
  from sets' have s1: "set (C @ [v]) = set (A @ v # B)" unfolding st fs .
  from p have p1: "JNum p \<notin> set (A @ v # B)" unfolding fs .
  from e have e1: "JNull \<notin> set (A @ v # B)" unfolding fs .
  from len have l1: "length (A @ v # B) = n" unfolding fs .
  from d1 d2 s1 have sC: "set C = set A \<union> set B" by auto
  have "consistent n (A @ JNum p # B) (C @ [JNum p])"
    unfolding consistent_def
  proof (intro conjI)
    from l1 show "length (A @ JNum p # B) = n" by simp
    from d2 p1 sC show "distinct (C @ [JNum p])" by auto
    from e1 sC show "set (C @ [JNum p]) = set (A @ JNum p # B) - {JNull}" by auto
    from e1 have "\<forall>x\<in>set (A @ JNum p # B). x \<noteq> JNull" by auto
    then have "filter (\<lambda>v. v \<noteq> JNull) (A @ JNum p # B) = A @ JNum p # B"
      by (rule filter_True)
    moreover from d1 p1 have "distinct (A @ JNum p # B)" by auto
    ultimately show "distinct (filter (\<lambda>v. v \<noteq> JNull) (A @ JNum p # B))" by simp
  qed
  with upd st show "consistent n (fs[nat (indexOf fs (last st)) := JNum p]) (butlast st @ [JNum p])"
    by simp
qed

lemma assign_found:
  "x \<in> set fs \<Longrightarrow> assign fs (indexOf fs x) v = fs[nat (indexOf fs x) := v]"
  using indexOf_found [of x fs] indexOf_less [of fs x] by (simp add: assign_def)

lemma pop_nonempty: "st \<noteq> [] \<Longrightarrow> pop st = (last st, butlast st)"
  by (simp add: pop_def)

lemma consistent_iteration:
  assumes c: "consistent n fs st" and n: "1 \<le> n"
    and it: "iteration i p fs st s = (fs', st', s')"
  shows "consistent n fs' st'"
proof (cases "JNum p \<in> set fs")
  case True
  with it c show ?thesis by (simp add: iteration_hit)
next
  case False
  show ?thesis
  proof (cases "JNull \<in> set fs")
    case True
    with False it consistent_empty_slot [OF c False True] show ?thesis
      by (simp add: iteration_empty)
  next
    case e: False
    note full = consistent_full [OF c n False e]
    from full(1) have "pop st = (last st, butlast st)" by (rule pop_nonempty)
    with False e it full(2,3) show ?thesis
      by (simp add: iteration_full assign_found)
  qed
qed

lemma consistent_at:
  assumes "1 \<le> state.frames s" and "k \<le> length (referenceString s)"
  shows "consistent (nat (state.frames s)) (framesAt s k) (stackAt s k)"
  using assms(2)
proof (induction k)
  case 0
  show ?case by (simp add: framesAt_def stackAt_def prefixRun_0 consistent_init)
next
  case (Suc k)
  then have k: "k < length (referenceString s)"
    and IH: "consistent (nat (state.frames s)) (framesAt s k) (stackAt s k)"
    by simp_all
  from assms(1) have n: "1 \<le> nat (state.frames s)" by simp
  obtain fs st s' where run: "prefixRun s k = (fs, st, s')"
    by (cases "prefixRun s k") auto
  obtain fs' st' s'' where it: "iteration k (referenceString s ! k) fs st s' = (fs', st', s'')"
    by (cases "iteration k (referenceString s ! k) fs st s'") auto
  from run IH have "consistent (nat (state.frames s)) fs st"
    by (simp add: framesAt_def stackAt_def)
  from consistent_iteration [OF this n it] prefixRun_Suc [OF k] run it
  show ?case by (simp add: framesAt_def stackAt_def)
qed


subsection \<open>The steps of the history\<close>

text \<open>
  The record at index \<open>k\<close> of the history and the arrays after step \<open>k + 1\<close>, from the
  arrays before it, in each of the three branches.
\<close>

lemma step_hit:
  assumes nn: "0 \<le> state.frames s"
    and k: "k < length (referenceString s)"
    and h: "JNum (referenceString s ! k) \<in> set (framesAt s k)"
  shows "history s ! k =
      \<lparr>step = k + 1, page = referenceString s ! k,
       stepData.frames = framesAt s k, stack = stackAt s k,
       isHit = True, isFault = False, replacedPage = JNull,
       replacedIndex = - 1, newPageIndex = - 1\<rparr>"
    and "framesAt s (Suc k) = framesAt s k"
    and "stackAt s (Suc k) = stackAt s k"
proof -
  obtain fs st s' where run: "prefixRun s k = (fs, st, s')"
    by (cases "prefixRun s k") auto
  with h have "JNum (referenceString s ! k) \<in> set fs" by (simp add: framesAt_def)
  then have next_run: "prefixRun s (Suc k) = iteration k (referenceString s ! k) fs st s'"
    and it: "iteration k (referenceString s ! k) fs st s' = (fs, st, s'\<lparr>totalHits := totalHits s' + 1,
               stateHistory := stateHistory s' @
                 [\<lparr>step = k + 1, page = referenceString s ! k, stepData.frames = fs, stack = st,
                   isHit = True, isFault = False, replacedPage = JNull,
                   replacedIndex = - 1, newPageIndex = - 1\<rparr>]\<rparr>)"
    using prefixRun_Suc [OF k] run by (simp_all add: iteration_hit)
  from next_run it run show "framesAt s (Suc k) = framesAt s k"
    and "stackAt s (Suc k) = stackAt s k"
    by (simp_all add: framesAt_def stackAt_def)
  from next_run it run history_nth [OF nn k]
  show "history s ! k =
      \<lparr>step = k + 1, page = referenceString s ! k,
       stepData.frames = framesAt s k, stack = stackAt s k,
       isHit = True, isFault = False, replacedPage = JNull,
       replacedIndex = - 1, newPageIndex = - 1\<rparr>"
    by (simp add: framesAt_def stackAt_def)
qed

lemma step_empty:
  assumes nn: "0 \<le> state.frames s"
    and k: "k < length (referenceString s)"
    and h: "JNum (referenceString s ! k) \<notin> set (framesAt s k)"
    and e: "JNull \<in> set (framesAt s k)"
  shows "history s ! k =
      \<lparr>step = k + 1, page = referenceString s ! k,
       stepData.frames = (framesAt s k)[nat (indexOf (framesAt s k) JNull) := JNum (referenceString s ! k)],
       stack = stackAt s k @ [JNum (referenceString s ! k)],
       isHit = False, isFault = True, replacedPage = JNull,
       replacedIndex = - 1, newPageIndex = indexOf (framesAt s k) JNull\<rparr>"
    and "framesAt s (Suc k) =
       (framesAt s k)[nat (indexOf (framesAt s k) JNull) := JNum (referenceString s ! k)]"
    and "stackAt s (Suc k) = stackAt s k @ [JNum (referenceString s ! k)]"
proof -
  obtain fs st s' where run: "prefixRun s k = (fs, st, s')"
    by (cases "prefixRun s k") auto
  with h e have "JNum (referenceString s ! k) \<notin> set fs" and "JNull \<in> set fs"
    by (simp_all add: framesAt_def)
  then have next_run: "prefixRun s (Suc k) = iteration k (referenceString s ! k) fs st s'"
    and it: "iteration k (referenceString s ! k) fs st s' =
      (fs[nat (indexOf fs JNull) := JNum (referenceString s ! k)], st @ [JNum (referenceString s ! k)],
       s'\<lparr>totalFaults := totalFaults s' + 1,
         stateHistory := stateHistory s' @
           [\<lparr>step = k + 1, page = referenceString s ! k,
             stepData.frames = fs[nat (indexOf fs JNull) := JNum (referenceString s ! k)],
             stack = st @ [JNum (referenceString s ! k)],
             isHit = False, isFault = True, replacedPage = JNull,
             replacedIndex = - 1, newPageIndex = indexOf fs JNull\<rparr>]\<rparr>)"
    using prefixRun_Suc [OF k] run by (simp_all add: iteration_empty)
  from next_run it run show "framesAt s (Suc k) =
       (framesAt s k)[nat (indexOf (framesAt s k) JNull) := JNum (referenceString s ! k)]"
    and "stackAt s (Suc k) = stackAt s k @ [JNum (referenceString s ! k)]"
    by (simp_all add: framesAt_def stackAt_def)
  from next_run it run history_nth [OF nn k]
  show "history s ! k =
      \<lparr>step = k + 1, page = referenceString s ! k,
       stepData.frames = (framesAt s k)[nat (indexOf (framesAt s k) JNull) := JNum (referenceString s ! k)],
       stack = stackAt s k @ [JNum (referenceString s ! k)],
       isHit = False, isFault = True, replacedPage = JNull,
       replacedIndex = - 1, newPageIndex = indexOf (framesAt s k) JNull\<rparr>"
    by (simp add: framesAt_def stackAt_def)
qed

lemma step_full:
  assumes nn: "0 \<le> state.frames s"
    and k: "k < length (referenceString s)"
    and h: "JNum (referenceString s ! k) \<notin> set (framesAt s k)"
    and e: "JNull \<notin> set (framesAt s k)"
  shows "history s ! k =
      \<lparr>step = k + 1, page = referenceString s ! k,
       stepData.frames = assign (framesAt s k) (indexOf (framesAt s k) (fst (pop (stackAt s k))))
          (JNum (referenceString s ! k)),
       stack = snd (pop (stackAt s k)) @ [JNum (referenceString s ! k)],
       isHit = False, isFault = True, replacedPage = fst (pop (stackAt s k)),
       replacedIndex = indexOf (framesAt s k) (fst (pop (stackAt s k))),
       newPageIndex = indexOf (framesAt s k) (fst (pop (stackAt s k)))\<rparr>"
    and "framesAt s (Suc k) =
       assign (framesAt s k) (indexOf (framesAt s k) (fst (pop (stackAt s k))))
          (JNum (referenceString s ! k))"
    and "stackAt s (Suc k) = snd (pop (stackAt s k)) @ [JNum (referenceString s ! k)]"
proof -
  obtain fs st s' where run: "prefixRun s k = (fs, st, s')"
    by (cases "prefixRun s k") auto
  with h e have "JNum (referenceString s ! k) \<notin> set fs" and "JNull \<notin> set fs"
    by (simp_all add: framesAt_def)
  then have next_run: "prefixRun s (Suc k) = iteration k (referenceString s ! k) fs st s'"
    and it: "iteration k (referenceString s ! k) fs st s' =
    (assign fs (indexOf fs (fst (pop st))) (JNum (referenceString s ! k)),
     snd (pop st) @ [JNum (referenceString s ! k)],
     s'\<lparr>totalFaults := totalFaults s' + 1,
       stateHistory := stateHistory s' @
         [\<lparr>step = k + 1, page = referenceString s ! k,
           stepData.frames = assign fs (indexOf fs (fst (pop st))) (JNum (referenceString s ! k)),
           stack = snd (pop st) @ [JNum (referenceString s ! k)],
           isHit = False, isFault = True, replacedPage = fst (pop st),
           replacedIndex = indexOf fs (fst (pop st)),
           newPageIndex = indexOf fs (fst (pop st))\<rparr>]\<rparr>)"
    using prefixRun_Suc [OF k] run by (simp_all add: iteration_full)
  from next_run it run show "framesAt s (Suc k) =
       assign (framesAt s k) (indexOf (framesAt s k) (fst (pop (stackAt s k))))
          (JNum (referenceString s ! k))"
    and "stackAt s (Suc k) = snd (pop (stackAt s k)) @ [JNum (referenceString s ! k)]"
    by (simp_all add: framesAt_def stackAt_def)
  from next_run it run history_nth [OF nn k]
  show "history s ! k =
      \<lparr>step = k + 1, page = referenceString s ! k,
       stepData.frames = assign (framesAt s k) (indexOf (framesAt s k) (fst (pop (stackAt s k))))
          (JNum (referenceString s ! k)),
       stack = snd (pop (stackAt s k)) @ [JNum (referenceString s ! k)],
       isHit = False, isFault = True, replacedPage = fst (pop (stackAt s k)),
       replacedIndex = indexOf (framesAt s k) (fst (pop (stackAt s k))),
       newPageIndex = indexOf (framesAt s k) (fst (pop (stackAt s k)))\<rparr>"
    by (simp add: framesAt_def stackAt_def)
qed

lemma snapshot:
  assumes nn: "0 \<le> state.frames s" and k: "k < length (referenceString s)"
  shows "stepData.frames (history s ! k) = framesAt s (Suc k)"
    and "stack (history s ! k) = stackAt s (Suc k)"
    and "step (history s ! k) = k + 1"
    and "page (history s ! k) = referenceString s ! k"
    and "isHit (history s ! k) \<longleftrightarrow> JNum (referenceString s ! k) \<in> set (framesAt s k)"
    and "isFault (history s ! k) \<longleftrightarrow> JNum (referenceString s ! k) \<notin> set (framesAt s k)"
proof -
  consider (hit) "JNum (referenceString s ! k) \<in> set (framesAt s k)"
    | (empty) "JNum (referenceString s ! k) \<notin> set (framesAt s k)" "JNull \<in> set (framesAt s k)"
    | (full) "JNum (referenceString s ! k) \<notin> set (framesAt s k)" "JNull \<notin> set (framesAt s k)"
    by blast
  then have "stepData.frames (history s ! k) = framesAt s (Suc k)
    \<and> stack (history s ! k) = stackAt s (Suc k)
    \<and> step (history s ! k) = k + 1
    \<and> page (history s ! k) = referenceString s ! k
    \<and> (isHit (history s ! k) \<longleftrightarrow> JNum (referenceString s ! k) \<in> set (framesAt s k))
    \<and> (isFault (history s ! k) \<longleftrightarrow> JNum (referenceString s ! k) \<notin> set (framesAt s k))"
  proof cases
    case hit
    from step_hit [OF nn k hit] hit show ?thesis by simp
  next
    case empty
    from step_empty [OF nn k empty] empty show ?thesis by simp
  next
    case full
    from step_full [OF nn k full] full show ?thesis by simp
  qed
  then show "stepData.frames (history s ! k) = framesAt s (Suc k)"
    and "stack (history s ! k) = stackAt s (Suc k)"
    and "step (history s ! k) = k + 1"
    and "page (history s ! k) = referenceString s ! k"
    and "isHit (history s ! k) \<longleftrightarrow> JNum (referenceString s ! k) \<in> set (framesAt s k)"
    and "isFault (history s ! k) \<longleftrightarrow> JNum (referenceString s ! k) \<notin> set (framesAt s k)"
    by simp_all
qed

lemma framesAt_0: "framesAt s 0 = replicate (nat (state.frames s)) JNull"
  by (simp add: framesAt_def prefixRun_0)

lemma stackAt_0: "stackAt s 0 = []"
  by (simp add: stackAt_def prefixRun_0)

lemma top_is_last_fault:
  assumes nn: "0 \<le> state.frames s"
    and "k \<le> length (referenceString s)" and "stackAt s k \<noteq> []"
  shows "\<exists>m < k. isFault (history s ! m) \<and> last (stackAt s k) = JNum (referenceString s ! m)
      \<and> (\<forall>q. m < q \<and> q < k \<longrightarrow> isHit (history s ! q))"
  using assms(2,3)
proof (induction k)
  case 0
  then show ?case by (simp add: stackAt_0)
next
  case (Suc k)
  then have k: "k < length (referenceString s)" by simp
  show ?case
  proof (cases "JNum (referenceString s ! k) \<in> set (framesAt s k)")
    case True
    note hit = step_hit [OF nn k True]
    from Suc.prems hit have "stackAt s k \<noteq> []" by simp
    with Suc.IH k obtain m where m: "m < k" "isFault (history s ! m)"
      "last (stackAt s k) = JNum (referenceString s ! m)"
      "\<forall>q. m < q \<and> q < k \<longrightarrow> isHit (history s ! q)"
      by auto
    have "\<forall>q. m < q \<and> q < Suc k \<longrightarrow> isHit (history s ! q)"
    proof (intro allI impI)
      fix q assume q: "m < q \<and> q < Suc k"
      show "isHit (history s ! q)"
      proof (cases "q = k")
        case True
        with hit(1) show ?thesis by simp
      next
        case False
        with q m(4) show ?thesis by simp
      qed
    qed
    with m hit show ?thesis
      by (intro exI [of _ m]) simp
  next
    case False
    have "isFault (history s ! k)
      \<and> last (stackAt s (Suc k)) = JNum (referenceString s ! k)"
    proof (cases "JNull \<in> set (framesAt s k)")
      case True
      from step_empty [OF nn k False True] show ?thesis by simp
    next
      case e: False
      from step_full [OF nn k False e] show ?thesis by simp
    qed
    then show ?thesis
      by (intro exI [of _ k]) auto
  qed
qed

lemma history_records:
  assumes "0 \<le> state.frames s" and "r \<in> set (history s)"
  obtains k where "k < length (referenceString s)" and "r = history s ! k"
  using assms by (auto simp: in_set_conv_nth history_length)

lemma framesAt_no_frames:
  assumes z: "state.frames s \<le> 0" and "k \<le> length (referenceString s)"
  shows "framesAt s k = []"
  using assms(2)
proof (induction k)
  case 0
  from z show ?case by (simp add: framesAt_0)
next
  case (Suc k)
  then have k: "k < length (referenceString s)" and IH: "framesAt s k = []" by simp_all
  obtain fs st s' where run: "prefixRun s k = (fs, st, s')"
    by (cases "prefixRun s k") auto
  with IH have "fs = []" by (simp add: framesAt_def)
  with prefixRun_Suc [OF k] run show ?case
    by (simp add: framesAt_def iteration_full assign_def)
qed

lemma frames_positive:
  assumes "k \<le> length (referenceString s)" and "x \<in> set (framesAt s k)"
  shows "1 \<le> state.frames s"
proof (rule ccontr)
  assume "\<not> 1 \<le> state.frames s"
  then have "state.frames s \<le> 0" by simp
  from framesAt_no_frames [OF this assms(1)] assms(2) show False by simp
qed

subsection \<open>The input collector on examples\<close>

text \<open>
  The example of \<open>loadExampleString\<close> is accepted and handed to the engine; a text of
  separators only is accepted with an empty reference string; the three error alerts
  leave the state object as it was.
\<close>

lemma load_example:
  "loadAndValidate (Some 3) ''7 0 1 2 0 3 0 4'' initial_state =
     (Inr (LoadedSuccessfully 8 3),
      snd (buildStateHistory (example_state\<lparr>isLoaded := True\<rparr>)))"
  by code_simp

lemma load_only_separators:
  "loadAndValidate (Some 3) '' , '' initial_state =
     (Inr (LoadedSuccessfully 0 3),
      initial_state\<lparr>state.frames := 3, referenceString := [], isLoaded := True\<rparr>)"
  by code_simp

lemma load_rejects:
  "loadAndValidate None ''7 0 1'' s = (Inr InvalidFrames, s)"
  "loadAndValidate (Some 11) ''7 0 1'' s = (Inr InvalidFrames, s)"
  "loadAndValidate (Some 3) ''  '' s = (Inr EmptyReferenceString, s)"
  "loadAndValidate (Some 3) ''7, x1 2'' s = (Inr (InvalidValue ''x1''), s)"
     apply (simp add: loadAndValidate_def)
    apply (simp add: loadAndValidate_def)
   apply (simp add: loadAndValidate_def trim_def isWhiteSpace_def)
  apply (simp add: loadAndValidate_def trim_def isWhiteSpace_def isSeparator_def
      allDigits_def isDigit_def Let_def)
  done

text \<open>
  The guard of \<open>loadAndValidate\<close> keeps the error of the engine away: whatever the
  inputs, the call ends with an alert.
\<close>

lemma load_never_throws: "fst (loadAndValidate framesValue refText s) \<noteq> Inl e"
proof -
  have ok: "buildStateHistory (s\<lparr>state.frames := v, referenceString := ps,
      isLoaded := True\<rparr>) \<noteq> (Some e', s2)" if "\<not> (v < 1 \<or> 10 < v)" for v ps e' s2
    using that by (simp add: buildStateHistory_def newArrayFill_def)
  show ?thesis
  proof (cases framesValue)
    case None
    then show ?thesis by (simp add: loadAndValidate_def)
  next
    case (Some v)
    show ?thesis
    proof (cases "v < 1 \<or> 10 < v")
      case True
      with Some show ?thesis by (simp add: loadAndValidate_def)
    next
      case False
      from ok [OF False] Some False show ?thesis
        by (auto simp: loadAndValidate_def Let_def simp del: splitSeparators.simps
            split: option.splits prod.splits)
    qed
  qed
qed

subsection \<open>The claims\<close>

text \<open>
  C2. On the reference string 7 0 1 2 0 3 0 4 with 3 frames the engine produces, in this
  order: a fault that loads 7 into slot 0, a fault that loads 0 into slot 1, a fault that
  loads 1 into slot 2 (none of the three replaces a page), a fault that replaces 1 in slot
  2 by 2, a hit on 0, a fault that replaces 2 in slot 2 by 3, a hit on 0 and a fault that
  replaces 3 in slot 2 by 4. The engine returns without an error, with 6 faults and 2 hits
  counted, and the top of the final stack is 4.
\<close>

theorem example_run:
  "history (initial_state\<lparr>state.frames := 3, referenceString := [7, 0, 1, 2, 0, 3, 0, 4]\<rparr>) =
     [\<lparr>step = 1, page = 7, stepData.frames = [JNum 7, JNull, JNull], stack = [JNum 7],
       isHit = False, isFault = True, replacedPage = JNull, replacedIndex = - 1,
       newPageIndex = 0\<rparr>,
      \<lparr>step = 2, page = 0, stepData.frames = [JNum 7, JNum 0, JNull],
       stack = [JNum 7, JNum 0],
       isHit = False, isFault = True, replacedPage = JNull, replacedIndex = - 1,
       newPageIndex = 1\<rparr>,
      \<lparr>step = 3, page = 1, stepData.frames = [JNum 7, JNum 0, JNum 1],
       stack = [JNum 7, JNum 0, JNum 1],
       isHit = False, isFault = True, replacedPage = JNull, replacedIndex = - 1,
       newPageIndex = 2\<rparr>,
      \<lparr>step = 4, page = 2, stepData.frames = [JNum 7, JNum 0, JNum 2],
       stack = [JNum 7, JNum 0, JNum 2],
       isHit = False, isFault = True, replacedPage = JNum 1, replacedIndex = 2,
       newPageIndex = 2\<rparr>,
      \<lparr>step = 5, page = 0, stepData.frames = [JNum 7, JNum 0, JNum 2],
       stack = [JNum 7, JNum 0, JNum 2],
       isHit = True, isFault = False, replacedPage = JNull, replacedIndex = - 1,
       newPageIndex = - 1\<rparr>,
      \<lparr>step = 6, page = 3, stepData.frames = [JNum 7, JNum 0, JNum 3],
       stack = [JNum 7, JNum 0, JNum 3],
       isHit = False, isFault = True, replacedPage = JNum 2, replacedIndex = 2,
       newPageIndex = 2\<rparr>,
      \<lparr>step = 7, page = 0, stepData.frames = [JNum 7, JNum 0, JNum 3],
       stack = [JNum 7, JNum 0, JNum 3],
       isHit = True, isFault = False, replacedPage = JNull, replacedIndex = - 1,
       newPageIndex = - 1\<rparr>,
      \<lparr>step = 8, page = 4, stepData.frames = [JNum 7, JNum 0, JNum 4],
       stack = [JNum 7, JNum 0, JNum 4],
       isHit = False, isFault = True, replacedPage = JNum 3, replacedIndex = 2,
       newPageIndex = 2\<rparr>]
   \<and> fst (buildStateHistory
        (initial_state\<lparr>state.frames := 3, referenceString := [7, 0, 1, 2, 0, 3, 0, 4]\<rparr>)) = None
   \<and> totalFaults (snd (buildStateHistory
        (initial_state\<lparr>state.frames := 3, referenceString := [7, 0, 1, 2, 0, 3, 0, 4]\<rparr>))) = 6
   \<and> totalHits (snd (buildStateHistory
        (initial_state\<lparr>state.frames := 3, referenceString := [7, 0, 1, 2, 0, 3, 0, 4]\<rparr>))) = 2
   \<and> last (stack (last (history
        (initial_state\<lparr>state.frames := 3, referenceString := [7, 0, 1, 2, 0, 3, 0, 4]\<rparr>)))) = JNum 4"
  by code_simp





text \<open>
  C5. When the requested page of a step already occupies a frame slot, the record of the
  step is a hit and the step changes nothing: the frame array and the stack after the
  step are the ones before it, the snapshots of the record are these arrays, and they
  equal the snapshots of the previous record (a hit is never the first step).
\<close>

theorem hit_changes_nothing:
  assumes k: "k < length (referenceString s)"
    and h: "JNum (referenceString s ! k) \<in> set (framesAt s k)"
  shows "isHit (history s ! k) \<and> \<not> isFault (history s ! k)
    \<and> framesAt s (Suc k) = framesAt s k \<and> stackAt s (Suc k) = stackAt s k
    \<and> stepData.frames (history s ! k) = framesAt s k
    \<and> stack (history s ! k) = stackAt s k
    \<and> 0 < k
    \<and> stepData.frames (history s ! k) = stepData.frames (history s ! (k - 1))
    \<and> stack (history s ! k) = stack (history s ! (k - 1))"
proof -
  from k h have "1 \<le> state.frames s" by (intro frames_positive [of k s]) simp_all
  then have nn: "0 \<le> state.frames s" by simp
  note hit = step_hit [OF nn k h]
  have pos: "0 < k"
  proof (rule ccontr)
    assume "\<not> 0 < k"
    then have "k = 0" by simp
    with h show False by (simp add: framesAt_0)
  qed
  with k have prev: "k - 1 < length (referenceString s)" and suc: "Suc (k - 1) = k"
    by simp_all
  from snapshot(1,2) [OF nn prev] suc
  have "stepData.frames (history s ! (k - 1)) = framesAt s k"
    and "stack (history s ! (k - 1)) = stackAt s k"
    by simp_all
  with hit pos show ?thesis by simp
qed

theorem hit_changes_nothing_witness:
  "4 < length (referenceString example_state)
   \<and> JNum (referenceString example_state ! 4) \<in> set (framesAt example_state 4)
   \<and> isHit (history example_state ! 4)
   \<and> stack (history example_state ! 4) = stack (history example_state ! (4 - 1))
   \<and> stackAt example_state (Suc 4) = stackAt example_state 4"
proof -
  have a: "4 < length (referenceString example_state)" by code_simp
  have b: "JNum (referenceString example_state ! 4) \<in> set (framesAt example_state 4)"
    by code_simp
  from hit_changes_nothing [OF a b] a b show ?thesis by blast
qed

text \<open>
  C6. When the requested page occupies no slot and some slot is empty, the page goes into
  the empty slot of lowest index \<open>j\<close> and on top of the stack, and the record is a fault
  with \<open>newPageIndex = j\<close> and no replaced page (\<open>replacedPage\<close> stays \<open>null\<close> and
  \<open>replacedIndex\<close> stays \<open>-1\<close>).
\<close>

theorem fault_into_empty_slot:
  assumes k: "k < length (referenceString s)"
    and miss: "JNum (referenceString s ! k) \<notin> set (framesAt s k)"
    and e: "JNull \<in> set (framesAt s k)"
  shows "\<exists>j < length (framesAt s k).
      framesAt s k ! j = JNull \<and> (\<forall>m < j. framesAt s k ! m \<noteq> JNull)
    \<and> framesAt s (Suc k) = (framesAt s k)[j := JNum (referenceString s ! k)]
    \<and> stackAt s (Suc k) = stackAt s k @ [JNum (referenceString s ! k)]
    \<and> history s ! k =
        \<lparr>step = k + 1, page = referenceString s ! k,
         stepData.frames = (framesAt s k)[j := JNum (referenceString s ! k)],
         stack = stackAt s k @ [JNum (referenceString s ! k)],
         isHit = False, isFault = True, replacedPage = JNull,
         replacedIndex = - 1, newPageIndex = int j\<rparr>"
proof -
  let ?j = "nat (indexOf (framesAt s k) JNull)"
  from e have j: "?j < length (framesAt s k)" and nonneg: "0 \<le> indexOf (framesAt s k) JNull"
    and at: "framesAt s k ! ?j = JNull"
    by (simp_all add: indexOf_found indexOf_nth)
  have first: "\<forall>m < ?j. framesAt s k ! m \<noteq> JNull"
    by (simp add: indexOf_first)
  from k e have "1 \<le> state.frames s" by (intro frames_positive [of k s]) simp_all
  then have nn: "0 \<le> state.frames s" by simp
  from step_empty [OF nn k miss e] j at first nonneg show ?thesis
    by (intro exI [of _ ?j]) simp
qed

theorem fault_into_empty_slot_witness:
  "1 < length (referenceString example_state)
   \<and> JNum (referenceString example_state ! 1) \<notin> set (framesAt example_state 1)
   \<and> JNull \<in> set (framesAt example_state 1)
   \<and> (\<exists>j < length (framesAt example_state 1).
        framesAt example_state 1 ! j = JNull
      \<and> newPageIndex (history example_state ! 1) = int j
      \<and> replacedPage (history example_state ! 1) = JNull
      \<and> isFault (history example_state ! 1))"
proof -
  have a: "1 < length (referenceString example_state)" by code_simp
  have b: "JNum (referenceString example_state ! 1) \<notin> set (framesAt example_state 1)"
    by code_simp
  have c: "JNull \<in> set (framesAt example_state 1)" by code_simp
  from fault_into_empty_slot [OF a b c]
  obtain j where "j < length (framesAt example_state 1)"
    "framesAt example_state 1 ! j = JNull"
    "history example_state ! 1 =
        \<lparr>step = 1 + 1, page = referenceString example_state ! 1,
         stepData.frames = (framesAt example_state 1)[j := JNum (referenceString example_state ! 1)],
         stack = stackAt example_state 1 @ [JNum (referenceString example_state ! 1)],
         isHit = False, isFault = True, replacedPage = JNull,
         replacedIndex = - 1, newPageIndex = int j\<rparr>"
    by blast
  then have "j < length (framesAt example_state 1)
      \<and> framesAt example_state 1 ! j = JNull
      \<and> newPageIndex (history example_state ! 1) = int j
      \<and> replacedPage (history example_state ! 1) = JNull
      \<and> isFault (history example_state ! 1)" by simp
  with a b c show ?thesis by blast
qed

text \<open>
  C1. With at least one frame, when the requested page occupies no slot and no slot is
  empty, the stack is not empty and its top is the victim: the one slot \<open>j\<close> that holds
  the victim is overwritten with the new page, the victim is popped and the new page
  pushed, and the record is a fault with \<open>newPageIndex = j\<close>, \<open>replacedIndex = j\<close> and
  \<open>replacedPage\<close> the victim. The victim is the page loaded by the most recent fault:
  every step between that fault and this one is a hit.
\<close>

theorem fault_when_full:
  assumes n: "1 \<le> state.frames s"
    and k: "k < length (referenceString s)"
    and miss: "JNum (referenceString s ! k) \<notin> set (framesAt s k)"
    and full: "JNull \<notin> set (framesAt s k)"
  shows "stackAt s k \<noteq> []
    \<and> (\<exists>j < length (framesAt s k).
          framesAt s k ! j = last (stackAt s k)
        \<and> (\<forall>m < length (framesAt s k). framesAt s k ! m = last (stackAt s k) \<longrightarrow> m = j)
        \<and> framesAt s (Suc k) = (framesAt s k)[j := JNum (referenceString s ! k)]
        \<and> stackAt s (Suc k) = butlast (stackAt s k) @ [JNum (referenceString s ! k)]
        \<and> history s ! k =
            \<lparr>step = k + 1, page = referenceString s ! k,
             stepData.frames = (framesAt s k)[j := JNum (referenceString s ! k)],
             stack = butlast (stackAt s k) @ [JNum (referenceString s ! k)],
             isHit = False, isFault = True, replacedPage = last (stackAt s k),
             replacedIndex = int j, newPageIndex = int j\<rparr>)
    \<and> (\<exists>m < k. isFault (history s ! m)
        \<and> last (stackAt s k) = JNum (referenceString s ! m)
        \<and> (\<forall>q. m < q \<and> q < k \<longrightarrow> isHit (history s ! q)))"
proof -
  let ?fs = "framesAt s k" and ?st = "stackAt s k"
  from n have nn: "0 \<le> state.frames s" and n': "1 \<le> nat (state.frames s)" by simp_all
  from k have c: "consistent (nat (state.frames s)) ?fs ?st"
    by (intro consistent_at [OF n]) simp
  note cf = consistent_full [OF c n' miss full]
  from cf(1) have pop: "pop ?st = (last ?st, butlast ?st)" by (rule pop_nonempty)
  let ?j = "nat (indexOf ?fs (last ?st))"
  from cf(2) have j: "?j < length ?fs" and nonneg: "0 \<le> indexOf ?fs (last ?st)"
    and at: "?fs ! ?j = last ?st"
    and asg: "\<And>v. assign ?fs (indexOf ?fs (last ?st)) v = ?fs[?j := v]"
    by (simp_all add: indexOf_found indexOf_nth assign_found)
  from full have "\<forall>x\<in>set ?fs. x \<noteq> JNull" by auto
  then have "filter (\<lambda>v. v \<noteq> JNull) ?fs = ?fs" by (rule filter_True)
  with c have dist: "distinct ?fs" by (simp add: consistent_def)
  have uniq: "\<forall>m < length ?fs. ?fs ! m = last ?st \<longrightarrow> m = ?j"
  proof (intro allI impI)
    fix m assume "m < length ?fs" and "?fs ! m = last ?st"
    with at have "?fs ! m = ?fs ! ?j" by simp
    with nth_eq_iff_index_eq [OF dist \<open>m < length ?fs\<close> j] show "m = ?j" by simp
  qed
  from k cf(1) have top: "\<exists>m < k. isFault (history s ! m)
        \<and> last ?st = JNum (referenceString s ! m)
        \<and> (\<forall>q. m < q \<and> q < k \<longrightarrow> isHit (history s ! q))"
    by (intro top_is_last_fault [OF nn]) simp_all
  from step_full [OF nn k miss full] pop asg nonneg
  have rec: "framesAt s (Suc k) = ?fs[?j := JNum (referenceString s ! k)]
      \<and> stackAt s (Suc k) = butlast ?st @ [JNum (referenceString s ! k)]
      \<and> history s ! k =
            \<lparr>step = k + 1, page = referenceString s ! k,
             stepData.frames = ?fs[?j := JNum (referenceString s ! k)],
             stack = butlast ?st @ [JNum (referenceString s ! k)],
             isHit = False, isFault = True, replacedPage = last ?st,
             replacedIndex = int ?j, newPageIndex = int ?j\<rparr>"
    by simp
  have ex: "\<exists>j < length ?fs.
          ?fs ! j = last ?st
        \<and> (\<forall>m < length ?fs. ?fs ! m = last ?st \<longrightarrow> m = j)
        \<and> framesAt s (Suc k) = ?fs[j := JNum (referenceString s ! k)]
        \<and> stackAt s (Suc k) = butlast ?st @ [JNum (referenceString s ! k)]
        \<and> history s ! k =
            \<lparr>step = k + 1, page = referenceString s ! k,
             stepData.frames = ?fs[j := JNum (referenceString s ! k)],
             stack = butlast ?st @ [JNum (referenceString s ! k)],
             isHit = False, isFault = True, replacedPage = last ?st,
             replacedIndex = int j, newPageIndex = int j\<rparr>"
  proof (rule exI [of _ ?j], intro conjI)
    show "?j < length ?fs" by (rule j)
    show "?fs ! ?j = last ?st" by (rule at)
    show "\<forall>m < length ?fs. ?fs ! m = last ?st \<longrightarrow> m = ?j" by (rule uniq)
    from rec show "framesAt s (Suc k) = ?fs[?j := JNum (referenceString s ! k)]"
      by (rule conjunct1)
    from rec show "stackAt s (Suc k) = butlast ?st @ [JNum (referenceString s ! k)]"
      by (rule conjunct1 [OF conjunct2])
    from rec show "history s ! k =
            \<lparr>step = k + 1, page = referenceString s ! k,
             stepData.frames = ?fs[?j := JNum (referenceString s ! k)],
             stack = butlast ?st @ [JNum (referenceString s ! k)],
             isHit = False, isFault = True, replacedPage = last ?st,
             replacedIndex = int ?j, newPageIndex = int ?j\<rparr>"
      by (rule conjunct2 [OF conjunct2])
  qed
  from cf(1) ex top show ?thesis by (intro conjI)
qed

theorem fault_when_full_witness:
  "1 \<le> state.frames example_state
   \<and> 3 < length (referenceString example_state)
   \<and> JNum (referenceString example_state ! 3) \<notin> set (framesAt example_state 3)
   \<and> JNull \<notin> set (framesAt example_state 3)
   \<and> stackAt example_state 3 \<noteq> []
   \<and> replacedPage (history example_state ! 3) = last (stackAt example_state 3)
   \<and> last (stackAt example_state 3) = JNum 1"
proof -
  have a: "1 \<le> state.frames example_state" by code_simp
  have b: "3 < length (referenceString example_state)" by code_simp
  have c: "JNum (referenceString example_state ! 3) \<notin> set (framesAt example_state 3)"
    by code_simp
  have d: "JNull \<notin> set (framesAt example_state 3)" by code_simp
  have e: "last (stackAt example_state 3) = JNum 1" by code_simp
  note w = fault_when_full [OF a b c d]
  from w have ne: "stackAt example_state 3 \<noteq> []" by (rule conjunct1)
  from w have "\<exists>j < length (framesAt example_state 3).
          framesAt example_state 3 ! j = last (stackAt example_state 3)
        \<and> (\<forall>m < length (framesAt example_state 3).
              framesAt example_state 3 ! m = last (stackAt example_state 3) \<longrightarrow> m = j)
        \<and> framesAt example_state (Suc 3) =
            (framesAt example_state 3)[j := JNum (referenceString example_state ! 3)]
        \<and> stackAt example_state (Suc 3) =
            butlast (stackAt example_state 3) @ [JNum (referenceString example_state ! 3)]
        \<and> history example_state ! 3 =
            \<lparr>step = 3 + 1, page = referenceString example_state ! 3,
             stepData.frames =
               (framesAt example_state 3)[j := JNum (referenceString example_state ! 3)],
             stack = butlast (stackAt example_state 3) @
               [JNum (referenceString example_state ! 3)],
             isHit = False, isFault = True, replacedPage = last (stackAt example_state 3),
             replacedIndex = int j, newPageIndex = int j\<rparr>"
    by (rule conjunct1 [OF conjunct2])
  then have "replacedPage (history example_state ! 3) = last (stackAt example_state 3)"
  proof (elim exE conjE)
    fix j
    assume "history example_state ! 3 =
            \<lparr>step = 3 + 1, page = referenceString example_state ! 3,
             stepData.frames =
               (framesAt example_state 3)[j := JNum (referenceString example_state ! 3)],
             stack = butlast (stackAt example_state 3) @
               [JNum (referenceString example_state ! 3)],
             isHit = False, isFault = True, replacedPage = last (stackAt example_state 3),
             replacedIndex = int j, newPageIndex = int j\<rparr>"
    then show ?thesis by simp
  qed
  with a b c d e ne show ?thesis by (intro conjI)
qed

text \<open>
  C9. With at least one frame, in the branch of a fault with no empty slot the stack is
  not empty, so \<open>pop\<close> returns its top and not \<open>undefined\<close>; the popped page occupies a
  frame, so its lookup with \<open>indexOf\<close> is never \<open>-1\<close>: the index that is overwritten and
  recorded lies in \<open>[0, frameCount)\<close>.
\<close>

theorem victim_lookup_succeeds:
  assumes n: "1 \<le> state.frames s"
    and k: "k < length (referenceString s)"
    and miss: "JNum (referenceString s ! k) \<notin> set (framesAt s k)"
    and full: "JNull \<notin> set (framesAt s k)"
  shows "stackAt s k \<noteq> []
    \<and> fst (pop (stackAt s k)) = last (stackAt s k)
    \<and> fst (pop (stackAt s k)) \<in> set (framesAt s k)
    \<and> indexOf (framesAt s k) (fst (pop (stackAt s k))) \<noteq> - 1
    \<and> 0 \<le> indexOf (framesAt s k) (fst (pop (stackAt s k)))
    \<and> indexOf (framesAt s k) (fst (pop (stackAt s k))) < state.frames s
    \<and> int (length (framesAt s k)) = state.frames s
    \<and> replacedIndex (history s ! k) = indexOf (framesAt s k) (fst (pop (stackAt s k)))
    \<and> newPageIndex (history s ! k) = indexOf (framesAt s k) (fst (pop (stackAt s k)))"
proof -
  let ?fs = "framesAt s k" and ?st = "stackAt s k"
  from n have nn: "0 \<le> state.frames s" and n': "1 \<le> nat (state.frames s)" by simp_all
  from k have c: "consistent (nat (state.frames s)) ?fs ?st"
    by (intro consistent_at [OF n]) simp
  with nn have len: "int (length ?fs) = state.frames s" by (simp add: consistent_def)
  note cf = consistent_full [OF c n' miss full]
  from cf(1) have pop: "fst (pop ?st) = last ?st" by (simp add: pop_nonempty)
  from cf(2) pop have mem: "fst (pop ?st) \<in> set ?fs" by simp
  then have found: "indexOf ?fs (fst (pop ?st)) \<noteq> - 1" by (simp add: indexOf_none)
  from mem have nonneg: "0 \<le> indexOf ?fs (fst (pop ?st))" by (rule indexOf_found)
  from indexOf_less [of ?fs "fst (pop ?st)"] len
  have less: "indexOf ?fs (fst (pop ?st)) < state.frames s" by simp
  from step_full(1) [OF nn k miss full]
  have "replacedIndex (history s ! k) = indexOf ?fs (fst (pop ?st))"
    and "newPageIndex (history s ! k) = indexOf ?fs (fst (pop ?st))"
    by simp_all
  with cf(1) pop mem found nonneg less len show ?thesis by (intro conjI)
qed

theorem victim_lookup_succeeds_witness:
  "1 \<le> state.frames example_state
   \<and> 5 < length (referenceString example_state)
   \<and> JNum (referenceString example_state ! 5) \<notin> set (framesAt example_state 5)
   \<and> JNull \<notin> set (framesAt example_state 5)
   \<and> stackAt example_state 5 \<noteq> []
   \<and> indexOf (framesAt example_state 5) (fst (pop (stackAt example_state 5))) \<noteq> - 1"
proof -
  have a: "1 \<le> state.frames example_state" by code_simp
  have b: "5 < length (referenceString example_state)" by code_simp
  have c: "JNum (referenceString example_state ! 5) \<notin> set (framesAt example_state 5)"
    by code_simp
  have d: "JNull \<notin> set (framesAt example_state 5)" by code_simp
  note w = victim_lookup_succeeds [OF a b c d]
  from w have e: "stackAt example_state 5 \<noteq> []" by (rule conjunct1)
  from w have f: "indexOf (framesAt example_state 5) (fst (pop (stackAt example_state 5))) \<noteq> - 1"
    by (rule conjunct1 [OF conjunct2 [OF conjunct2 [OF conjunct2]]])
  from a b c d e f show ?thesis by (intro conjI)
qed

text \<open>
  C4. With at least one frame, in every record of the history the non-empty values of the
  frame snapshot are exactly the elements of the stack snapshot, there are at most
  \<open>frameCount\<close> of them, the stack has at most \<open>frameCount\<close> elements, and no page is
  twice in the stack.
\<close>

theorem stack_frame_consistency:
  assumes n: "1 \<le> state.frames s" and r: "r \<in> set (history s)"
  shows "{v \<in> set (stepData.frames r). v \<noteq> JNull} = set (stack r)
    \<and> int (card {v \<in> set (stepData.frames r). v \<noteq> JNull}) \<le> state.frames s
    \<and> int (length (stack r)) \<le> state.frames s
    \<and> distinct (stack r)
    \<and> int (length (stepData.frames r)) = state.frames s"
proof -
  from n have nn: "0 \<le> state.frames s" by simp
  from r obtain k where k: "k < length (referenceString s)" and rk: "r = history s ! k"
    by (rule history_records [OF nn])
  let ?fs = "framesAt s (Suc k)" and ?st = "stackAt s (Suc k)"
  from k have "consistent (nat (state.frames s)) ?fs ?st"
    by (intro consistent_at [OF n]) simp
  then have len': "length ?fs = nat (state.frames s)" and dst: "distinct ?st"
    and sets: "set ?st = set ?fs - {JNull}"
    by (simp_all add: consistent_def)
  from len' nn have len: "int (length ?fs) = state.frames s" by simp
  have eq: "{v \<in> set ?fs. v \<noteq> JNull} = set ?st"
    unfolding sets by auto
  have "card (set ?fs - {JNull}) \<le> card (set ?fs)"
    by (rule card_mono) auto
  also have "\<dots> \<le> length ?fs" by (rule card_length)
  finally have "card (set ?st) \<le> length ?fs"
    using sets by simp
  with len have bound: "int (card (set ?st)) \<le> state.frames s" by simp
  from dst have "card (set ?st) = length ?st" by (rule distinct_card)
  with bound have lst: "int (length ?st) \<le> state.frames s" by simp
  from snapshot(1,2) [OF nn k] rk
  have "stepData.frames r = ?fs" and "stack r = ?st" by simp_all
  with eq bound lst dst len show ?thesis by simp
qed

theorem stack_frame_consistency_witness:
  "1 \<le> state.frames example_state
   \<and> history example_state ! 3 \<in> set (history example_state)
   \<and> {v \<in> set (stepData.frames (history example_state ! 3)). v \<noteq> JNull}
       = set (stack (history example_state ! 3))
   \<and> int (length (stack (history example_state ! 3))) \<le> state.frames example_state
   \<and> distinct (stack (history example_state ! 3))"
proof -
  have a: "1 \<le> state.frames example_state" by code_simp
  have "3 < length (history example_state)" by code_simp
  then have b: "history example_state ! 3 \<in> set (history example_state)"
    by (rule nth_mem)
  from stack_frame_consistency [OF a b] a b show ?thesis by (intro conjI) simp_all
qed

text \<open>
  C10. With at least one frame, every record of the history has exactly one of \<open>isHit\<close>
  and \<open>isFault\<close> set; a hit keeps \<open>replacedPage = null\<close>, \<open>replacedIndex = -1\<close> and
  \<open>newPageIndex = -1\<close>, and a fault has \<open>newPageIndex >= 0\<close>.
\<close>

theorem hit_or_fault:
  assumes n: "1 \<le> state.frames s" and r: "r \<in> set (history s)"
  shows "(isHit r \<longleftrightarrow> \<not> isFault r)
    \<and> (isHit r \<longrightarrow> replacedPage r = JNull \<and> replacedIndex r = - 1 \<and> newPageIndex r = - 1)
    \<and> (isFault r \<longrightarrow> 0 \<le> newPageIndex r)"
proof -
  from n have nn: "0 \<le> state.frames s" and n': "1 \<le> nat (state.frames s)" by simp_all
  from r obtain k where k: "k < length (referenceString s)" and rk: "r = history s ! k"
    by (rule history_records [OF nn])
  let ?fs = "framesAt s k" and ?st = "stackAt s k"
  show ?thesis
  proof (cases "JNum (referenceString s ! k) \<in> set ?fs")
    case True
    from step_hit(1) [OF nn k True] rk show ?thesis by simp
  next
    case False
    show ?thesis
    proof (cases "JNull \<in> set ?fs")
      case True
      from True have "0 \<le> indexOf ?fs JNull" by (rule indexOf_found)
      with step_empty(1) [OF nn k False True] rk show ?thesis by simp
    next
      case e: False
      from k have c: "consistent (nat (state.frames s)) ?fs ?st"
        by (intro consistent_at [OF n]) simp
      note cf = consistent_full [OF c n' False e]
      from cf(1) have "fst (pop ?st) = last ?st" by (simp add: pop_nonempty)
      with cf(2) have "0 \<le> indexOf ?fs (fst (pop ?st))" by (simp add: indexOf_found)
      with step_full(1) [OF nn k False e] rk show ?thesis by simp
    qed
  qed
qed

theorem hit_or_fault_witness:
  "1 \<le> state.frames example_state
   \<and> history example_state ! 4 \<in> set (history example_state)
   \<and> isHit (history example_state ! 4)
   \<and> \<not> isFault (history example_state ! 4)
   \<and> replacedPage (history example_state ! 4) = JNull
   \<and> replacedIndex (history example_state ! 4) = - 1
   \<and> newPageIndex (history example_state ! 4) = - 1"
proof -
  have a: "1 \<le> state.frames example_state" by code_simp
  have "4 < length (history example_state)" by code_simp
  then have b: "history example_state ! 4 \<in> set (history example_state)"
    by (rule nth_mem)
  have c: "isHit (history example_state ! 4)" by code_simp
  from hit_or_fault [OF a b] a b c show ?thesis by simp
qed

text \<open>
  C3, as the code has it. With a negative frame count the engine raises: the creation of
  the frame array throws a \<open>RangeError\<close>, after the history has been emptied, so the
  history holds no record. With a frame count of 0 the engine raises nothing: it returns
  one record for each reference, each of them a fault with an empty frame snapshot and
  \<open>newPageIndex = -1\<close>. The message about a frame count below 1 comes from
  \<open>loadAndValidate\<close>, which shows the error alert and returns with the state object, and
  so the history, unchanged, without running the engine.
\<close>

theorem frame_count_below_one:
  "(state.frames s < 0 \<longrightarrow>
        buildStateHistory s =
          (Some RangeError, s\<lparr>stateHistory := [], totalHits := 0, totalFaults := 0\<rparr>)
      \<and> history s = [])
   \<and> (state.frames s = 0 \<longrightarrow>
        fst (buildStateHistory s) = None
      \<and> length (history s) = length (referenceString s)
      \<and> (\<forall>r \<in> set (history s).
            isFault r \<and> \<not> isHit r \<and> stepData.frames r = [] \<and> newPageIndex r = - 1))
   \<and> (v < 1 \<longrightarrow> loadAndValidate (Some v) refText s = (Inr InvalidFrames, s))"
proof (intro conjI impI)
  assume "state.frames s < 0"
  then show "buildStateHistory s =
      (Some RangeError, s\<lparr>stateHistory := [], totalHits := 0, totalFaults := 0\<rparr>)"
    by (rule buildStateHistory_throws)
  then show "history s = []" by (simp add: history_def)
next
  assume z: "state.frames s = 0"
  then have nn: "0 \<le> state.frames s" and le: "state.frames s \<le> 0" by simp_all
  show "fst (buildStateHistory s) = None" by (simp add: prefixRun_all [OF nn])
  show "length (history s) = length (referenceString s)" by (rule history_length [OF nn])
  show "\<forall>r \<in> set (history s).
      isFault r \<and> \<not> isHit r \<and> stepData.frames r = [] \<and> newPageIndex r = - 1"
  proof
    fix r assume "r \<in> set (history s)"
    then obtain k where k: "k < length (referenceString s)" and rk: "r = history s ! k"
      by (rule history_records [OF nn])
    from k have e: "framesAt s k = []" by (intro framesAt_no_frames [OF le]) simp
    then have "JNum (referenceString s ! k) \<notin> set (framesAt s k)"
      and "JNull \<notin> set (framesAt s k)" by simp_all
    from step_full(1) [OF nn k this] e rk
    show "isFault r \<and> \<not> isHit r \<and> stepData.frames r = [] \<and> newPageIndex r = - 1"
      by (simp add: assign_def)
  qed
next
  assume "v < 1"
  then show "loadAndValidate (Some v) refText s = (Inr InvalidFrames, s)"
    by (simp add: loadAndValidate_def)
qed

theorem frame_count_below_one_witness:
  "state.frames (initial_state\<lparr>state.frames := - 1, referenceString := [7, 0]\<rparr>) < 0
   \<and> fst (buildStateHistory (initial_state\<lparr>state.frames := - 1, referenceString := [7, 0]\<rparr>))
       = Some RangeError
   \<and> history (initial_state\<lparr>state.frames := - 1, referenceString := [7, 0]\<rparr>) = []
   \<and> state.frames (initial_state\<lparr>state.frames := 0, referenceString := [7, 0]\<rparr>) = 0
   \<and> fst (buildStateHistory (initial_state\<lparr>state.frames := 0, referenceString := [7, 0]\<rparr>))
       = None
   \<and> length (history (initial_state\<lparr>state.frames := 0, referenceString := [7, 0]\<rparr>)) = 2
   \<and> isFault (history (initial_state\<lparr>state.frames := 0, referenceString := [7, 0]\<rparr>) ! 1)
   \<and> (- 1 :: int) < 1
   \<and> loadAndValidate (Some (- 1)) ''7 0 1'' example_state = (Inr InvalidFrames, example_state)"
proof -
  let ?m = "initial_state\<lparr>state.frames := - 1, referenceString := [7, 0]\<rparr>"
  let ?z = "initial_state\<lparr>state.frames := 0, referenceString := [7, 0]\<rparr>"
  have a: "state.frames ?m < 0" by simp
  have b: "state.frames ?z = 0" by simp
  have c: "(- 1 :: int) < 1" by simp
  from frame_count_below_one [of ?m 0 "[]"] a
  have m1: "buildStateHistory ?m =
      (Some RangeError, ?m\<lparr>stateHistory := [], totalHits := 0, totalFaults := 0\<rparr>)"
    and m2: "history ?m = []"
    by blast+
  from m1 have m1': "fst (buildStateHistory ?m) = Some RangeError" by simp
  from frame_count_below_one [of ?z 0 "[]"] b
  have z1: "fst (buildStateHistory ?z) = None"
    and z2: "length (history ?z) = length (referenceString ?z)"
    and z3: "\<forall>r \<in> set (history ?z).
            isFault r \<and> \<not> isHit r \<and> stepData.frames r = [] \<and> newPageIndex r = - 1"
    by blast+
  from z2 have z2': "length (history ?z) = 2" by simp
  then have "history ?z ! 1 \<in> set (history ?z)" by simp
  with z3 have z4: "isFault (history ?z ! 1)" by blast
  from frame_count_below_one [of example_state "- 1" "''7 0 1''"] c
  have l: "loadAndValidate (Some (- 1)) ''7 0 1'' example_state = (Inr InvalidFrames, example_state)"
    by blast
  from a m1' m2 b z1 z2' z4 c l show ?thesis by (intro conjI)
qed

text \<open>
  The claim C3 itself, that the engine raises an error and produces no record whenever
  the frame count is below 1, fails at the frame count 0: on the one reference 7 with 0
  frames \<open>buildStateHistory\<close> returns without an error and leaves a history of one record.
\<close>

theorem engine_accepts_zero_frames:
  "fst (buildStateHistory (initial_state\<lparr>state.frames := 0, referenceString := [7]\<rparr>)) = None
   \<and> history (initial_state\<lparr>state.frames := 0, referenceString := [7]\<rparr>) =
     [\<lparr>step = 1, page = 7, stepData.frames = [], stack = [JNum 7],
       isHit = False, isFault = True, replacedPage = JUndefined,
       replacedIndex = - 1, newPageIndex = - 1\<rparr>]
   \<and> history (initial_state\<lparr>state.frames := 0, referenceString := [7]\<rparr>) \<noteq> []"
  by code_simp

end
